theory Spec2Isabelle
  imports Main "HOL-Library.Sublist"
begin

section \<open>Errors raised by the embedded Python code\<close>

text \<open>
  Every exception that the embedded code can raise is a value. A function that can raise
  returns \<open>py_error + 'a\<close>, with \<open>Inl\<close> for the exception.
\<close>

datatype py_error = ValueError | IndexError | ZeroDivisionError | OSError

section \<open>The colour palette (\<open>ultralytics/test/data/dataset/yolodetection.py\<close>)\<close>

text \<open>
  \<open>int(s, 16)\<close> on a string of plain hexadecimal digits. The palette holds only such
  strings; anything else is reported as \<open>ValueError\<close> here (Python would also accept a
  sign, surrounding blanks and single underscores, which no palette entry has).
\<close>

definition hex_digit :: "char \<Rightarrow> int option" where
  "hex_digit c =
     (let k = int (of_char c :: nat) in
      if 48 \<le> k \<and> k \<le> 57 then Some (k - 48)
      else if 65 \<le> k \<and> k \<le> 70 then Some (k - 55)
      else if 97 \<le> k \<and> k \<le> 102 then Some (k - 87)
      else None)"

fun int16_acc :: "int \<Rightarrow> string \<Rightarrow> py_error + int" where
  "int16_acc a [] = Inr a"
| "int16_acc a (c # cs) =
     (case hex_digit c of None \<Rightarrow> Inl ValueError | Some d \<Rightarrow> int16_acc (16 * a + d) cs)"

definition int16 :: "string \<Rightarrow> py_error + int" where
  "int16 s = (if s = [] then Inl ValueError else int16_acc 0 s)"

text \<open>The slice \<open>h[a:b]\<close> for non-negative bounds: it never raises, it truncates.\<close>

definition slice :: "string \<Rightarrow> nat \<Rightarrow> nat \<Rightarrow> string" where
  "slice h a b = take (b - a) (drop a h)"

text \<open>\<open>hex2rgb(h)\<close>: the three channels are read at offsets 0, 2 and 4 behind the leading
  \<open>#\<close>.\<close>

definition hex2rgb :: "string \<Rightarrow> py_error + (int \<times> int \<times> int)" where
  "hex2rgb h =
     (case int16 (slice h (1 + 0) (1 + 0 + 2)) of Inl e \<Rightarrow> Inl e | Inr r \<Rightarrow>
      case int16 (slice h (1 + 2) (1 + 2 + 2)) of Inl e \<Rightarrow> Inl e | Inr g \<Rightarrow>
      case int16 (slice h (1 + 4) (1 + 4 + 2)) of Inl e \<Rightarrow> Inl e | Inr b \<Rightarrow>
      Inr (r, g, b))"

definition hexs :: "string list" where
  "hexs = [''FF3838'', ''FF9D97'', ''FF701F'', ''FFB21D'', ''CFD231'', ''48F90A'', ''92CC17'',
           ''3DDB86'', ''1A9334'', ''00D4BB'', ''2C99A8'', ''00C2FF'', ''344593'', ''6473FF'',
           ''0018EC'', ''8438FF'', ''520085'', ''CB38FF'', ''FF95C8'', ''FF37C7'']"

record Colors =
  palette :: "(int \<times> int \<times> int) list"
  n :: int

text \<open>The list comprehension of \<open>__init__\<close>: the first entry that raises aborts it.\<close>

fun build_palette :: "string list \<Rightarrow> py_error + (int \<times> int \<times> int) list" where
  "build_palette [] = Inr []"
| "build_palette (c # cs) =
     (case hex2rgb (CHR ''#'' # c) of Inl e \<Rightarrow> Inl e | Inr t \<Rightarrow>
      case build_palette cs of Inl e \<Rightarrow> Inl e | Inr ts \<Rightarrow> Inr (t # ts))"

definition Colors_init :: "py_error + Colors" where
  "Colors_init =
     (case build_palette hexs of Inl e \<Rightarrow> Inl e
      | Inr p \<Rightarrow> Inr \<lparr>palette = p, n = int (length p)\<rparr>)"

text \<open>
  List indexing \<open>xs[j]\<close> as Python does it: a negative index counts from the end, and an
  index outside the list raises \<open>IndexError\<close>.
\<close>

definition py_index :: "'a list \<Rightarrow> int \<Rightarrow> py_error + 'a" where
  "py_index xs j =
     (let len = int (length xs); k = (if j < 0 then len + j else j)
      in if 0 \<le> k \<and> k < len then Inr (xs ! nat k) else Inl IndexError)"

text \<open>
  \<open>__call__(i, bgr)\<close> for an integer \<open>i\<close> (\<open>int(i)\<close> is then \<open>i\<close>). Python's \<open>%\<close> takes the
  sign of the divisor, as \<open>mod\<close> on \<open>int\<close> does, and raises on a zero divisor.
\<close>

definition Colors_call :: "Colors \<Rightarrow> int \<Rightarrow> bool \<Rightarrow> py_error + (int \<times> int \<times> int)" where
  "Colors_call self i bgr =
     (if n self = 0 then Inl ZeroDivisionError
      else case py_index (palette self) (i mod n self) of
             Inl e \<Rightarrow> Inl e
           | Inr c \<Rightarrow> (case c of (c0, c1, c2) \<Rightarrow> Inr (if bgr then (c2, c1, c0) else c)))"

section \<open>Paths (\<open>pathlib\<close> on a POSIX system)\<close>

text \<open>
  A \<open>Path\<close> object is its root flag and its list of component names; the root \<open>/\<close> is
  not one of the names (Python's \<open>parts\<close> would list it first). The script only meets
  the double-slash root of POSIX as an intermediate value that \<open>resolve()\<close> turns into
  the single root at once, so one flag is enough.
\<close>

datatype path = Path (is_absolute: bool) (names: "string list")

text \<open>\<open>s.split(c)\<close> and \<open>sep.join(xs)\<close>.\<close>

fun split_on :: "char \<Rightarrow> string \<Rightarrow> string list" where
  "split_on c [] = [[]]"
| "split_on c (x # xs) =
     (if x = c then [] # split_on c xs
      else case split_on c xs of [] \<Rightarrow> [[x]] | w # ws \<Rightarrow> (x # w) # ws)"

fun join_with :: "string \<Rightarrow> string list \<Rightarrow> string" where
  "join_with sep [] = []"
| "join_with sep [x] = x"
| "join_with sep (x # y # zs) = x @ sep @ join_with sep (y # zs)"

text \<open>\<open>Path(s)\<close>: empty components and \<open>.\<close> components are dropped, \<open>..\<close> is kept.\<close>

definition parse_path :: "string \<Rightarrow> path" where
  "parse_path s =
     Path (prefix ''/'' s) (filter (\<lambda>x. x \<noteq> [] \<and> x \<noteq> ''.'') (split_on CHR ''/'' s))"

text \<open>\<open>str(p)\<close>; the empty relative path prints as a dot.\<close>

definition str_path :: "path \<Rightarrow> string" where
  "str_path p =
     (if is_absolute p then ''/'' @ join_with ''/'' (names p)
      else if names p = [] then ''.'' else join_with ''/'' (names p))"

text \<open>\<open>p / q\<close>: an absolute right operand replaces the left one.\<close>

definition joinpath :: "path \<Rightarrow> path \<Rightarrow> path" where
  "joinpath p q = (if is_absolute q then q else Path (is_absolute p) (names p @ names q))"

text \<open>\<open>p.parent\<close> and \<open>p.name\<close>.\<close>

definition parent :: "path \<Rightarrow> path" where
  "parent p = Path (is_absolute p) (butlast (names p))"

definition name :: "path \<Rightarrow> string" where
  "name p = (if names p = [] then [] else last (names p))"

text \<open>
  \<open>p.relative_to(q)\<close>: \<open>q\<close> has to be a prefix of \<open>p\<close>, component by component and root
  included; the result is a relative path.
\<close>

definition relative_to :: "path \<Rightarrow> path \<Rightarrow> py_error + path" where
  "relative_to p q =
     (if is_absolute p = is_absolute q \<and> prefix (names q) (names p)
      then Inr (Path False (drop (length (names q)) (names p)))
      else Inl ValueError)"

text \<open>
  \<open>s.rfind(c)\<close>, \<open>p.suffix\<close> and \<open>p.with_suffix(sfx)\<close> for a well-formed suffix such as
  \<open>.md\<close>. A path with an empty name (the root, or the empty relative path) raises.
\<close>

definition rfind :: "char \<Rightarrow> string \<Rightarrow> int" where
  "rfind c s =
     (if c \<in> set s then int (length s) - 1 - int (length (takeWhile (\<lambda>x. x \<noteq> c) (rev s)))
      else - 1)"

definition suffix_of :: "string \<Rightarrow> string" where
  "suffix_of nm =
     (let i = rfind CHR ''.'' nm
      in if 0 < i \<and> i < int (length nm) - 1 then drop (nat i) nm else [])"

definition with_suffix :: "path \<Rightarrow> string \<Rightarrow> py_error + path" where
  "with_suffix p sfx =
     (let nm = name p in
      if nm = [] then Inl ValueError
      else let old_suffix = suffix_of nm;
               nm' = (if old_suffix = [] then nm @ sfx
                      else take (length nm - length old_suffix) nm @ sfx)
           in Inr (Path (is_absolute p) (butlast (names p) @ [nm'])))"

text \<open>
  The file system is the set of the path strings that exist, the set of the path strings
  on which \<open>os.stat\<close> fails with an error other than the four that \<open>Path.exists()\<close> takes
  for an absent file (\<open>ENOENT\<close>, \<open>ENOTDIR\<close>, \<open>EBADF\<close>, \<open>ELOOP\<close>): a name that is too long
  for the file system, a directory that may not be searched; and the working directory.

  There are no symbolic links, so that \<open>resolve()\<close> is the walk over the components that
  \<open>pathlib\<close> does: a \<open>..\<close> drops the last component collected so far (none at the root),
  anything else is appended. A relative path starts from the working directory. The walk
  asks the system about every component, which raises \<open>ValueError\<close> for a component with
  a NUL character; the errors of the system itself are passed over.

  \<open>p.exists()\<close> answers \<open>False\<close> for a path with a NUL character and raises \<open>OSError\<close>
  where \<open>os.stat\<close> fails with an error that it does not take for absence.
\<close>

record filesystem =
  existing :: "string set"
  stat_fails :: "string set"
  cwd :: path

definition resolve_step :: "string list \<Rightarrow> string \<Rightarrow> string list" where
  "resolve_step acc nm =
     (if nm = [] \<or> nm = ''.'' then acc
      else if nm = ''..'' then butlast acc
      else acc @ [nm])"

definition resolve :: "filesystem \<Rightarrow> path \<Rightarrow> py_error + path" where
  "resolve fs p =
     (if \<exists>nm\<in>set (names p). CHR 0x00 \<in> set nm then Inl ValueError
      else Inr (Path True (foldl resolve_step (if is_absolute p then [] else names (cwd fs))
                             (names p))))"

definition exists :: "filesystem \<Rightarrow> path \<Rightarrow> py_error + bool" where
  "exists fs p =
     (if CHR 0x00 \<in> set (str_path p) then Inr False
      else if str_path p \<in> stat_fails fs then Inl OSError
      else Inr (str_path p \<in> existing fs))"

section \<open>Strings\<close>

text \<open>
  \<open>s.replace(old, new)\<close>: every occurrence of \<open>old\<close> found by one scan from the left is
  replaced, and the scan goes on behind the occurrence. For an empty \<open>old\<close> Python puts
  \<open>new\<close> in front of every character and at the end.
\<close>

function replace_str :: "string \<Rightarrow> string \<Rightarrow> string \<Rightarrow> string" where
  "replace_str old new [] = (if old = [] then new else [])"
| "replace_str old new (c # cs) =
     (if old = [] then new @ c # replace_str old new cs
      else if prefix old (c # cs) then new @ replace_str old new (drop (length old) (c # cs))
      else c # replace_str old new cs)"
  by pat_completeness auto
termination
  by (relation "measure (\<lambda>(old, new, s). length s)") auto

section \<open>Regular expressions (\<open>re\<close>)\<close>

text \<open>
  The fragment of Python's pattern language that the script uses: a literal character, a
  negated class \<open>[^...]\<close>, \<open>\w\<close>, a greedy \<open>+\<close> over one of these, a capturing group,
  concatenation, and the anchors \<open>^\<close> and \<open>$\<close> (without the \<open>MULTILINE\<close> flag).

  Text is a list of 8-bit characters. The patterns of the script tell apart only ASCII
  characters, so that a text in UTF-8 is matched as its code points would be; \<open>\w\<close> is
  modelled on the ASCII range only (letters, digits and the underscore).
\<close>

datatype atom = Lit char | NoneOf "char list" | Word

datatype regex = Eps | Atom atom | Plus atom | Group regex | Cat regex regex | Bol | Eol

definition is_word :: "char \<Rightarrow> bool" where
  "is_word c =
     (let k = (of_char c :: nat) in
      (48 \<le> k \<and> k \<le> 57) \<or> (65 \<le> k \<and> k \<le> 90) \<or> (97 \<le> k \<and> k \<le> 122) \<or> k = 95)"

fun atom_ok :: "atom \<Rightarrow> char \<Rightarrow> bool" where
  "atom_ok (Lit x) c = (c = x)"
| "atom_ok (NoneOf xs) c = (c \<notin> set xs)"
| "atom_ok Word c = is_word c"

text \<open>
  The matcher backtracks as Python's does. A state is the position in the text, the text
  from there on, and the groups captured so far; running a pattern from a state gives
  every state in which the pattern can end, in the order in which Python tries them, so
  that the head of the list is the match that Python reports. A greedy \<open>+\<close> tries the
  longest repetition first. A group records the text that its body consumed (the groups
  of the script's patterns are not nested, so they close in the order of their numbers).
  \<open>^\<close> holds at position 0 only; \<open>$\<close> holds at the end of the text and before a newline
  that ends the text.
\<close>

type_synonym rstate = "nat \<times> string \<times> string list"

fun plus_run :: "atom \<Rightarrow> nat \<Rightarrow> string \<Rightarrow> (nat \<times> string) list" where
  "plus_run a i [] = []"
| "plus_run a i (c # cs) =
     (if atom_ok a c then plus_run a (Suc i) cs @ [(Suc i, cs)] else [])"

fun rx_run :: "regex \<Rightarrow> rstate \<Rightarrow> rstate list" where
  "rx_run Eps st = [st]"
| "rx_run (Atom a) (i, s, g) =
     (case s of [] \<Rightarrow> [] | c # cs \<Rightarrow> if atom_ok a c then [(Suc i, cs, g)] else [])"
| "rx_run (Plus a) (i, s, g) = map (\<lambda>(j, r). (j, r, g)) (plus_run a i s)"
| "rx_run (Group r) (i, s, g) =
     map (\<lambda>(j, r', g'). (j, r', g' @ [take (j - i) s])) (rx_run r (i, s, g))"
| "rx_run (Cat r1 r2) st = concat (map (rx_run r2) (rx_run r1 st))"
| "rx_run Bol (i, s, g) = (if i = 0 then [(i, s, g)] else [])"
| "rx_run Eol (i, s, g) = (if s = [] \<or> s = [CHR 0x0A] then [(i, s, g)] else [])"

definition seq :: "regex list \<Rightarrow> regex" where
  "seq rs = foldr Cat rs Eps"

text \<open>A match object: \<open>m.group(0)\<close> and \<open>m.groups()\<close>.\<close>

record rmatch =
  group0 :: string
  groups :: "string list"

text \<open>
  The match of a pattern that starts at position \<open>i\<close>, where \<open>s\<close> is the text from \<open>i\<close> on,
  together with its length. \<open>re.match(r, s)\<close> is the match at position 0.
\<close>

definition match_at :: "regex \<Rightarrow> nat \<Rightarrow> string \<Rightarrow> (rmatch \<times> nat) option" where
  "match_at r i s =
     (case rx_run r (i, s, []) of
        [] \<Rightarrow> None
      | (j, rest, g) # _ \<Rightarrow> Some (\<lparr>group0 = take (j - i) s, groups = g\<rparr>, j - i))"

definition re_match :: "regex \<Rightarrow> string \<Rightarrow> rmatch option" where
  "re_match r s = map_option fst (match_at r 0 s)"

section \<open>The link fixer (\<open>docs/update_translations.py\<close>)\<close>

record MarkdownLinkFixer =
  base_dir :: path
  update_links :: bool
  update_text :: bool

text \<open>The pattern \<^verbatim>\<open>\[([^]]+)]\(([^:)]+)\.md\)\<close> of \<open>__init__\<close>.\<close>

definition md_link_regex :: regex where
  "md_link_regex =
     seq [Atom (Lit CHR ''[''), Group (Plus (NoneOf '']'')), Atom (Lit CHR '']''),
          Atom (Lit CHR ''(''), Group (Plus (NoneOf '':)'')),
          Atom (Lit CHR ''.''), Atom (Lit CHR ''m''), Atom (Lit CHR ''d''),
          Atom (Lit CHR '')'')]"

text \<open>
  The parts of \<open>link_replacer\<close>, in the order of its lines.
  \<open>linked_path_of\<close> is \<open>(parent_dir / path).resolve().with_suffix('.md')\<close>,
  \<open>en_linked_path_of\<close> is the path built from the string of \<open>linked_path\<close> in which
  \<open>str(lang_dir)\<close> is replaced by \<open>str(lang_dir.parent / 'en')\<close>,
  \<open>abs_updated_path\<close> is the branch \<open>use_abs_link\<close>, and \<open>rel_updated_path\<close> the default
  branch: as many \<open>../\<close> as \<open>parent_dir\<close> has components below \<open>base_dir\<close>, then the
  candidate relative to \<open>base_dir\<close>, and \<open>/en/\<close> replaced by \<open>/\<close> in the string of that.
\<close>

definition linked_path_of :: "filesystem \<Rightarrow> path \<Rightarrow> string \<Rightarrow> py_error + path" where
  "linked_path_of fs parent_dir pth =
     (case resolve fs (joinpath parent_dir (parse_path pth)) of
        Inl e \<Rightarrow> Inl e
      | Inr resolved \<Rightarrow> with_suffix resolved ''.md'')"

definition en_linked_path_of :: "path \<Rightarrow> path \<Rightarrow> path" where
  "en_linked_path_of lang_dir linked_path =
     parse_path (replace_str (str_path lang_dir)
                   (str_path (joinpath (parent lang_dir) (parse_path ''en'')))
                   (str_path linked_path))"

definition abs_updated_path :: "path \<Rightarrow> path \<Rightarrow> py_error + string" where
  "abs_updated_path lang_dir en_linked_path =
     (case relative_to en_linked_path (parent lang_dir) of
        Inl e \<Rightarrow> Inl e
      | Inr docs_root_relative_path \<Rightarrow>
          Inr (replace_str ''en/'' ''/../'' (str_path docs_root_relative_path)))"

definition rel_updated_path :: "MarkdownLinkFixer \<Rightarrow> path \<Rightarrow> path \<Rightarrow> py_error + string" where
  "rel_updated_path self parent_dir en_linked_path =
     (case relative_to parent_dir (base_dir self) of
        Inl e \<Rightarrow> Inl e
      | Inr rel_parent \<Rightarrow>
          let steps_up = length (names rel_parent) in
          case relative_to en_linked_path (base_dir self) of
            Inl e \<Rightarrow> Inl e
          | Inr rel_en \<Rightarrow>
              let updated_path =
                    joinpath (parse_path (concat (replicate steps_up ''../''))) rel_en
              in Inr (replace_str ''/en/'' ''/'' (str_path updated_path)))"

text \<open>The two lines that \<open>link_replacer\<close> prints.\<close>

definition redirect_line :: "string \<Rightarrow> string \<Rightarrow> path \<Rightarrow> string \<Rightarrow> string" where
  "redirect_line text pth parent_dir updated_path =
     ''Redirecting link '' @ [CHR 0x27] @ ''['' @ text @ '']('' @ pth @ '')'' @ [CHR 0x27]
       @ '' from '' @ str_path parent_dir @ '' to '' @ updated_path"

definition broken_line :: "string \<Rightarrow> string \<Rightarrow> path \<Rightarrow> string" where
  "broken_line text pth parent_dir =
     ''Warning: Broken link '' @ [CHR 0x27] @ ''['' @ text @ '']('' @ pth @ '')'' @ [CHR 0x27]
       @ '' found in '' @ str_path parent_dir @ '' does not exist in /docs/en/.''"

text \<open>
  \<open>link_replacer(match, parent_dir, lang_dir, use_abs_link)\<close> returns the replacement text
  and the lines it printed, or the exception that \<open>resolve\<close>, \<open>with_suffix\<close>, \<open>exists\<close>,
  \<open>relative_to\<close> or the unpacking of the groups raised.
\<close>

definition link_replacer ::
  "MarkdownLinkFixer \<Rightarrow> filesystem \<Rightarrow> rmatch \<Rightarrow> path \<Rightarrow> path \<Rightarrow> bool
     \<Rightarrow> py_error + (string \<times> string list)" where
  "link_replacer self fs m parent_dir lang_dir use_abs_link =
     (case groups m of
        [text, pth] \<Rightarrow>
          (case linked_path_of fs parent_dir pth of
             Inl e \<Rightarrow> Inl e
           | Inr linked_path \<Rightarrow>
               (case exists fs linked_path of
                  Inl e \<Rightarrow> Inl e
                | Inr linked_exists \<Rightarrow>
                    if \<not> linked_exists then
                      let en_linked_path = en_linked_path_of lang_dir linked_path in
                      case exists fs en_linked_path of
                        Inl e \<Rightarrow> Inl e
                      | Inr en_exists \<Rightarrow>
                          if en_exists then
                            case (if use_abs_link then abs_updated_path lang_dir en_linked_path
                                  else rel_updated_path self parent_dir en_linked_path) of
                              Inl e \<Rightarrow> Inl e
                            | Inr updated_path \<Rightarrow>
                                Inr (''['' @ text @ '']('' @ updated_path @ '')'',
                                     [redirect_line text pth parent_dir updated_path])
                          else Inr (group0 m, [broken_line text pth parent_dir])
                    else Inr (group0 m, [])))
      | _ \<Rightarrow> Inl ValueError)"

section \<open>What the link pattern matches\<close>

text \<open>
  The substitution below goes on behind each match, so that it needs to know that a match
  of the link pattern is never empty. The lemmas of this section say more: at any position
  the pattern has at most one way to match, and it matches there exactly when the text
  from there on is \<open>[t](p.md)\<close> with a non-empty \<open>t\<close> free of \<open>]\<close> and a non-empty \<open>p\<close>
  free of \<open>:\<close> and \<open>)\<close>.
\<close>

lemma plus_run_mem:
  "(j, r) \<in> set (plus_run a i s) \<Longrightarrow>
     \<exists>u. u \<noteq> [] \<and> s = u @ r \<and> (\<forall>x\<in>set u. atom_ok a x) \<and> j = i + length u"
proof (induction s arbitrary: i)
  case Nil
  then show ?case by simp
next
  case (Cons c cs)
  show ?case
  proof (cases "atom_ok a c")
    case False
    with Cons.prems show ?thesis by simp
  next
    case True
    with Cons.prems have "(j, r) \<in> set (plus_run a (Suc i) cs) \<or> (j, r) = (Suc i, cs)"
      by auto
    then show ?thesis
    proof
      assume "(j, r) \<in> set (plus_run a (Suc i) cs)"
      from Cons.IH [OF this] obtain u where
        u: "u \<noteq> []" "cs = u @ r" "\<forall>x\<in>set u. atom_ok a x" "j = Suc i + length u"
        by blast
      show ?thesis
        by (rule exI [of _ "c # u"]) (use u True in simp)
    next
      assume "(j, r) = (Suc i, cs)"
      then show ?thesis
        by (intro exI [of _ "[c]"]) (use True in simp)
    qed
  qed
qed

lemma plus_run_then:
  assumes "\<forall>x\<in>set t. atom_ok a x" and "t \<noteq> []" and "\<not> atom_ok a c"
    and "\<And>j x r. atom_ok a x \<Longrightarrow> F (j, x # r) = []"
  shows "concat (map F (plus_run a i (t @ c # rest))) = F (i + length t, c # rest)"
  using assms(1,2)
proof (induction t arbitrary: i)
  case Nil
  then show ?case by simp
next
  case (Cons x t)
  show ?case
  proof (cases t)
    case Nil
    with Cons.prems assms(3) show ?thesis by simp
  next
    case (Cons y t')
    with Cons.prems have "\<forall>x\<in>set t. atom_ok a x" "t \<noteq> []" "atom_ok a y" by auto
    with Cons.IH [of "Suc i"] Cons.prems Cons assms(4) [of y]
    show ?thesis by simp
  qed
qed

lemma not_prefix_md:
  assumes "p \<noteq> []" and "CHR '')'' \<notin> set p"
  shows "\<not> prefix ''.md)'' (p @ ''.md)'' @ rest)"
proof (cases p)
  case Nil
  with assms show ?thesis by simp
next
  case (Cons a p1)
  show ?thesis
  proof (cases p1)
    case Nil
    with Cons show ?thesis by simp
  next
    case (Cons b p2)
    note c2 = this
    show ?thesis
    proof (cases p2)
      case Nil
      with c2 \<open>p = a # p1\<close> show ?thesis by simp
    next
      case (Cons c p3)
      note c3 = this
      show ?thesis
      proof (cases p3)
        case Nil
        with c2 c3 \<open>p = a # p1\<close> show ?thesis by simp
      next
        case (Cons d p4)
        with c2 c3 \<open>p = a # p1\<close> assms(2) show ?thesis by auto
      qed
    qed
  qed
qed

lemma plus_run_then_md:
  assumes "\<forall>x\<in>set p. atom_ok a x" and "p \<noteq> []" and "CHR '')'' \<notin> set p"
    and "atom_ok a CHR ''.''" and "atom_ok a CHR ''m''" and "atom_ok a CHR ''d''"
    and "\<not> atom_ok a CHR '')''"
    and F: "\<And>j r. \<not> prefix ''.md)'' r \<Longrightarrow> F (j, r) = []"
  shows "concat (map F (plus_run a i (p @ ''.md)'' @ rest))) = F (i + length p, ''.md)'' @ rest)"
  using assms(1,2,3)
proof (induction p arbitrary: i)
  case Nil
  then show ?case by simp
next
  case (Cons x p)
  show ?case
  proof (cases "p = []")
    case True
    with Cons.prems assms(4-7) show ?thesis by (simp add: F)
  next
    case False
    with Cons.prems have "\<not> prefix ''.md)'' (p @ ''.md)'' @ rest)"
      by (intro not_prefix_md) auto
    then have "F (Suc i, p @ ''.md)'' @ rest) = []" by (rule F)
    with Cons.IH [of "Suc i"] Cons.prems False show ?thesis by simp
  qed
qed

lemma group_plus_then:
  "rx_run (Cat (Group (Plus a)) R) (i, s, g) =
     concat (map (\<lambda>(j, r). rx_run R (j, r, g @ [take (j - i) s])) (plus_run a i s))"
  by (simp add: comp_def split_def)

definition md_tail :: regex where
  "md_tail = seq [Atom (Lit CHR ''.''), Atom (Lit CHR ''m''), Atom (Lit CHR ''d''), Atom (Lit CHR '')'')]"

lemma md_tail_run:
  "rx_run md_tail (j, r, g) = (if prefix ''.md)'' r then [(j + 4, drop 4 r, g)] else [])"
  by (auto simp: md_tail_def seq_def split: list.splits)

lemma md_link_regex_alt:
  "md_link_regex =
     Cat (Atom (Lit CHR ''['')) (Cat (Group (Plus (NoneOf '']'')))
       (Cat (Atom (Lit CHR '']'')) (Cat (Atom (Lit CHR ''('')) (Cat (Group (Plus (NoneOf '':)''))) md_tail))))"
  by (simp add: md_link_regex_def md_tail_def seq_def)

lemma md_link_run_match:
  assumes "t \<noteq> []" "CHR '']'' \<notin> set t" "p \<noteq> []" "CHR '':'' \<notin> set p" "CHR '')'' \<notin> set p"
  shows "rx_run md_link_regex (i, ''['' @ t @ '']('' @ p @ ''.md)'' @ rest, g) =
           [(i + length t + length p + 7, rest, g @ [t, p])]"
proof -
  let ?R2 = "Cat (Group (Plus (NoneOf '':)''))) md_tail"
  let ?R1 = "Cat (Atom (Lit CHR '']'')) (Cat (Atom (Lit CHR ''('')) ?R2)"
  let ?s1 = "t @ CHR '']'' # ''('' @ p @ ''.md)'' @ rest"
  let ?s2 = "p @ ''.md)'' @ rest"
  have two: "rx_run ?R2 (j, ?s2, h) = [(j + length p + 4, rest, h @ [p])]" for j h
  proof -
    let ?F = "\<lambda>(k, r). rx_run md_tail (k, r, h @ [take (k - j) ?s2])"
    have "rx_run ?R2 (j, ?s2, h) = concat (map ?F (plus_run (NoneOf '':)'') j ?s2))"
      by (rule group_plus_then)
    also have "\<dots> = ?F (j + length p, ''.md)'' @ rest)"
      using assms(3,4,5) by (intro plus_run_then_md) (auto simp: md_tail_run)
    also have "\<dots> = [(j + length p + 4, rest, h @ [p])]"
      by (simp add: md_tail_run)
    finally show ?thesis .
  qed
  let ?G = "\<lambda>(k, r). rx_run ?R1 (k, r, g @ [take (k - Suc i) ?s1])"
  have "rx_run md_link_regex (i, ''['' @ ?s1, g) = rx_run (Cat (Group (Plus (NoneOf '']''))) ?R1) (Suc i, ?s1, g)"
    by (simp add: md_link_regex_alt)
  also have "\<dots> = concat (map ?G (plus_run (NoneOf '']'') (Suc i) ?s1))"
    by (rule group_plus_then)
  also have "\<dots> = ?G (Suc i + length t, CHR '']'' # ''('' @ p @ ''.md)'' @ rest)"
    using assms(1,2) by (intro plus_run_then) auto
  also have "\<dots> = rx_run ?R2 (Suc i + length t + 2, ?s2, g @ [t])"
    by simp
  also have "\<dots> = [(i + length t + length p + 7, rest, g @ [t, p])]"
    by (simp only: two) simp
  finally show ?thesis by simp
qed


lemma md_link_run_shape:
  assumes "(j, r, h) \<in> set (rx_run md_link_regex (i, s, g))"
  shows "\<exists>t p. s = ''['' @ t @ '']('' @ p @ ''.md)'' @ r \<and> t \<noteq> [] \<and> CHR '']'' \<notin> set t
           \<and> p \<noteq> [] \<and> CHR '':'' \<notin> set p \<and> CHR '')'' \<notin> set p"
proof -
  let ?R2 = "Cat (Group (Plus (NoneOf '':)''))) md_tail"
  let ?R1 = "Cat (Atom (Lit CHR '']'')) (Cat (Atom (Lit CHR ''('')) ?R2)"
  from assms obtain s1 where s: "s = CHR ''['' # s1"
    and 1: "(j, r, h) \<in> set (rx_run (Cat (Group (Plus (NoneOf '']''))) ?R1) (Suc i, s1, g))"
    by (auto simp: md_link_regex_alt simp del: rx_run.simps(5)
        simp add: rx_run.simps(5) [of "Atom _"] split: list.splits if_splits)
  from 1 obtain k1 r1 where p1: "(k1, r1) \<in> set (plus_run (NoneOf '']'') (Suc i) s1)"
    and 2: "(j, r, h) \<in> set (rx_run ?R1 (k1, r1, g @ [take (k1 - Suc i) s1]))"
    unfolding group_plus_then by (auto simp del: rx_run.simps)
  from plus_run_mem [OF p1] obtain t where
    t: "t \<noteq> []" "s1 = t @ r1" "\<forall>x\<in>set t. atom_ok (NoneOf '']'') x"
    by blast
  from 2 obtain s2 g2 k2 where r1: "r1 = CHR '']'' # CHR ''('' # s2"
    and 3: "(j, r, h) \<in> set (rx_run ?R2 (k2, s2, g2))"
    by (auto simp del: rx_run.simps(5)
        simp add: rx_run.simps(5) [of "Atom _"] split: list.splits if_splits)
  from 3 obtain k3 r3 g3 where p3: "(k3, r3) \<in> set (plus_run (NoneOf '':)'') k2 s2)"
    and 4: "(j, r, h) \<in> set (rx_run md_tail (k3, r3, g3))"
    unfolding group_plus_then by (auto simp del: rx_run.simps)
  from plus_run_mem [OF p3] obtain p where
    p: "p \<noteq> []" "s2 = p @ r3" "\<forall>x\<in>set p. atom_ok (NoneOf '':)'') x"
    by blast
  from 4 have "prefix ''.md)'' r3" and "r = drop 4 r3"
    by (auto simp: md_tail_run split: if_splits)
  then have r3: "r3 = ''.md)'' @ r"
    by (auto simp: prefix_def)
  have eq: "s = ''['' @ t @ '']('' @ p @ ''.md)'' @ r"
    by (simp add: s t(2) r1 p(2) r3)
  have nt: "CHR '']'' \<notin> set t"
    using t(3) by auto
  have np: "CHR '':'' \<notin> set p" "CHR '')'' \<notin> set p"
    using p(3) by auto
  show ?thesis
    by (intro exI [of _ t] exI [of _ p] conjI eq t(1) nt p(1) np)
qed

lemma md_link_run_cases:
  "rx_run md_link_regex (i, s, g) = [] \<or>
     (\<exists>t p rest. s = ''['' @ t @ '']('' @ p @ ''.md)'' @ rest \<and> t \<noteq> [] \<and> CHR '']'' \<notin> set t
        \<and> p \<noteq> [] \<and> CHR '':'' \<notin> set p \<and> CHR '')'' \<notin> set p
        \<and> rx_run md_link_regex (i, s, g) = [(i + length t + length p + 7, rest, g @ [t, p])])"
proof (cases "rx_run md_link_regex (i, s, g)")
  case Nil
  then show ?thesis by simp
next
  case (Cons st sts)
  obtain j r h where "st = (j, r, h)" by (cases st) auto
  with Cons have "(j, r, h) \<in> set (rx_run md_link_regex (i, s, g))" by simp
  from md_link_run_shape [OF this] obtain t p where
    tp: "s = ''['' @ t @ '']('' @ p @ ''.md)'' @ r" "t \<noteq> []" "CHR '']'' \<notin> set t"
        "p \<noteq> []" "CHR '':'' \<notin> set p" "CHR '')'' \<notin> set p"
    by blast
  from md_link_run_match [OF tp(2-6), of i r g] tp show ?thesis by blast
qed

lemma take_link:
  "take (length t + length p + 7) (''['' @ t @ '']('' @ p @ ''.md)'' @ rest) =
     ''['' @ t @ '']('' @ p @ ''.md)''"
proof -
  let ?w = "''['' @ t @ '']('' @ p @ ''.md)''"
  have "length ?w = length t + length p + 7" by simp
  then have "take (length t + length p + 7) (?w @ rest) = ?w"
    by (metis append_eq_conv_conj)
  then show ?thesis by simp
qed

lemma match_at_single:
  assumes "rx_run r (i, s, []) = [(i + len, rest, g)]"
  shows "match_at r i s = Some (\<lparr>group0 = take len s, groups = g\<rparr>, len)"
  by (simp add: match_at_def assms)

lemma match_at_md_link_iff:
  "match_at md_link_regex i s = Some (m, k) \<longleftrightarrow>
     (\<exists>t p rest. s = ''['' @ t @ '']('' @ p @ ''.md)'' @ rest \<and> t \<noteq> [] \<and> CHR '']'' \<notin> set t
        \<and> p \<noteq> [] \<and> CHR '':'' \<notin> set p \<and> CHR '')'' \<notin> set p
        \<and> m = \<lparr>group0 = ''['' @ t @ '']('' @ p @ ''.md)'', groups = [t, p]\<rparr>
        \<and> k = length t + length p + 7)"
  (is "?L \<longleftrightarrow> ?R")
proof
  assume a: ?L
  then have "rx_run md_link_regex (i, s, []) \<noteq> []"
    by (auto simp: match_at_def)
  with md_link_run_cases [of i s "[]"] obtain t p rest where
    tp: "s = ''['' @ t @ '']('' @ p @ ''.md)'' @ rest" "t \<noteq> []" "CHR '']'' \<notin> set t"
        "p \<noteq> []" "CHR '':'' \<notin> set p" "CHR '')'' \<notin> set p"
    and run: "rx_run md_link_regex (i, s, []) = [(i + length t + length p + 7, rest, [] @ [t, p])]"
    by blast
  define n where "n = length t + length p + 7"
  have tk: "take n s = ''['' @ t @ '']('' @ p @ ''.md)''"
    unfolding tp(1) n_def by (rule take_link)
  have "rx_run md_link_regex (i, s, []) = [(i + n, rest, [t, p])]"
    using run by (simp add: n_def)
  from match_at_single [OF this] a
  have "(m, k) = (\<lparr>group0 = take n s, groups = [t, p]\<rparr>, n)" by simp
  then have "m = \<lparr>group0 = take n s, groups = [t, p]\<rparr>" and "k = n"
    by blast+
  then have m: "m = \<lparr>group0 = ''['' @ t @ '']('' @ p @ ''.md)'', groups = [t, p]\<rparr>"
    and k: "k = length t + length p + 7"
    unfolding tk unfolding n_def .
  show ?R
    by (intro exI [of _ t] exI [of _ p] exI [of _ rest] conjI tp(1-6) m k)
next
  assume ?R
  then obtain t p rest where
    tp: "s = ''['' @ t @ '']('' @ p @ ''.md)'' @ rest" "t \<noteq> []" "CHR '']'' \<notin> set t"
        "p \<noteq> []" "CHR '':'' \<notin> set p" "CHR '')'' \<notin> set p"
    and m: "m = \<lparr>group0 = ''['' @ t @ '']('' @ p @ ''.md)'', groups = [t, p]\<rparr>"
    and k: "k = length t + length p + 7"
    by blast
  define n where "n = length t + length p + 7"
  have tk: "take n s = ''['' @ t @ '']('' @ p @ ''.md)''"
    unfolding tp(1) n_def by (rule take_link)
  have "rx_run md_link_regex (i, s, []) = [(i + length t + length p + 7, rest, [] @ [t, p])]"
    unfolding tp(1) by (rule md_link_run_match [OF tp(2-6)])
  then have "rx_run md_link_regex (i, s, []) = [(i + n, rest, [t, p])]"
    by (simp add: n_def)
  from match_at_single [OF this] have "match_at md_link_regex i s =
      Some (\<lparr>group0 = ''['' @ t @ '']('' @ p @ ''.md)'', groups = [t, p]\<rparr>, n)"
    unfolding tk .
  then show ?L
    unfolding m k n_def .
qed

lemma match_at_md_link_pos:
  assumes "match_at md_link_regex i s = Some (m, k)"
  shows "0 < k"
  using assms unfolding match_at_md_link_iff by auto

section \<open>The rewrite pass over a document\<close>

text \<open>
  \<open>md_link_regex.sub(repl, content)\<close> with a function \<open>repl\<close>: the text is scanned from the
  left; where the pattern matches, the result of \<open>repl\<close> on the match is put in place of
  the matched text and the scan goes on behind the match; elsewhere the character is
  copied. The lines that \<open>repl\<close> prints are collected in order, and an exception of \<open>repl\<close>
  ends the substitution. (A match of this pattern is never empty, so that the special
  treatment that \<open>re\<close> gives to empty matches does not arise.)
\<close>

function md_link_regex_sub ::
  "(rmatch \<Rightarrow> py_error + (string \<times> string list)) \<Rightarrow> nat \<Rightarrow> string
     \<Rightarrow> py_error + (string \<times> string list)" where
  "md_link_regex_sub repl i [] = Inr ([], [])"
| "md_link_regex_sub repl i (c # cs) =
     (case match_at md_link_regex i (c # cs) of
        None \<Rightarrow>
          (case md_link_regex_sub repl (Suc i) cs of
             Inl e \<Rightarrow> Inl e
           | Inr (out, printed) \<Rightarrow> Inr (c # out, printed))
      | Some (m, k) \<Rightarrow>
          (case repl m of
             Inl e \<Rightarrow> Inl e
           | Inr (new, printed1) \<Rightarrow>
               (case md_link_regex_sub repl (i + k) (drop k (c # cs)) of
                  Inl e \<Rightarrow> Inl e
                | Inr (out, printed2) \<Rightarrow> Inr (new @ out, printed1 @ printed2))))"
  by pat_completeness auto
termination
  by (relation "measure (\<lambda>(repl, i, s). length s)") (auto dest: match_at_md_link_pos)

text \<open>
  The matches that a scan of the text finds (\<open>md_link_regex.finditer\<close>), each with the
  position at which it starts.
\<close>

function md_link_regex_finditer :: "nat \<Rightarrow> string \<Rightarrow> (nat \<times> rmatch) list" where
  "md_link_regex_finditer i [] = []"
| "md_link_regex_finditer i (c # cs) =
     (case match_at md_link_regex i (c # cs) of
        None \<Rightarrow> md_link_regex_finditer (Suc i) cs
      | Some (m, k) \<Rightarrow> (i, m) # md_link_regex_finditer (i + k) (drop k (c # cs)))"
  by pat_completeness auto
termination
  by (relation "measure (\<lambda>(i, s). length s)") (auto dest: match_at_md_link_pos)

text \<open>
  \<open>process_markdown_file(md_file_path, lang_dir)\<close> on the text read from the file; the
  result is the text written back and the lines printed. The three passes of
  \<open>update_text\<close> are string substitutions outside the link engine; together they are the
  parameter \<open>text_passes\<close>. \<open>rewrite_links\<close> is the substitution of line 127.
\<close>

definition rewrite_links ::
  "MarkdownLinkFixer \<Rightarrow> filesystem \<Rightarrow> path \<Rightarrow> path \<Rightarrow> string
     \<Rightarrow> py_error + (string \<times> string list)" where
  "rewrite_links self fs parent_dir lang_dir content =
     md_link_regex_sub (\<lambda>m. link_replacer self fs m parent_dir lang_dir False) 0 content"

definition process_markdown_file ::
  "MarkdownLinkFixer \<Rightarrow> filesystem \<Rightarrow> (string \<Rightarrow> string) \<Rightarrow> path \<Rightarrow> path \<Rightarrow> string
     \<Rightarrow> py_error + (string \<times> string list)" where
  "process_markdown_file self fs text_passes md_file_path lang_dir content =
     (case (if update_links self
            then rewrite_links self fs (parent md_file_path) lang_dir content
            else Inr (content, [])) of
        Inl e \<Rightarrow> Inl e
      | Inr (content1, printed) \<Rightarrow>
          Inr (if update_text self then text_passes content1 else content1,
               (''Processing file: '' @ str_path md_file_path) # printed))"

text \<open>
  \<open>run()\<close>: the entries of \<open>base_dir\<close> are given as the list of their names, each with
  the answer of \<open>is_dir()\<close>, in the order of \<open>iterdir()\<close>; \<open>process\<close> stands for
  \<open>process_language_directory\<close>, which works on a state of the caller's choice. The
  pattern is \<^verbatim>\<open>^\w\w$\<close>.
\<close>

definition lang_dir_regex :: regex where
  "lang_dir_regex = seq [Bol, Atom Word, Atom Word, Eol]"

fun run ::
  "MarkdownLinkFixer \<Rightarrow> (string \<times> bool) list \<Rightarrow> (path \<Rightarrow> 'st \<Rightarrow> py_error + 'st) \<Rightarrow> 'st
     \<Rightarrow> py_error + 'st" where
  "run self [] process st = Inr st"
| "run self ((nm, isdir) # entries) process st =
     (if isdir \<and> re_match lang_dir_regex nm \<noteq> None \<and> nm \<noteq> ''en''
      then case process (joinpath (base_dir self) (Path False [nm])) st of
             Inl e \<Rightarrow> Inl e
           | Inr st' \<Rightarrow> run self entries process st'
      else run self entries process st)"

section \<open>Properties of the colour palette\<close>

lemma build_palette_hexs:
  "build_palette hexs = Inr
     [(255, 56, 56), (255, 157, 151), (255, 112, 31), (255, 178, 29), (207, 210, 49),
      (72, 249, 10), (146, 204, 23), (61, 219, 134), (26, 147, 52), (0, 212, 187),
      (44, 153, 168), (0, 194, 255), (52, 69, 147), (100, 115, 255), (0, 24, 236),
      (132, 56, 255), (82, 0, 133), (203, 56, 255), (255, 149, 200), (255, 55, 199)]"
  by (simp add: hexs_def hex2rgb_def int16_def slice_def hex_digit_def)

lemma Colors_init_ok:
  "\<exists>cs. Colors_init = Inr cs \<and> n cs = 20 \<and> length (palette cs) = 20"
  by (simp add: Colors_init_def build_palette_hexs)

lemma Colors_call_total:
  assumes "n self = int (length (palette self))" and "palette self \<noteq> []"
  shows "\<exists>c0 c1 c2. (c0, c1, c2) \<in> set (palette self)
           \<and> Colors_call self i False = Inr (c0, c1, c2)
           \<and> Colors_call self i True = Inr (c2, c1, c0)"
proof -
  let ?len = "int (length (palette self))"
  have pos: "0 < ?len" using assms(2) by simp
  have lo: "0 \<le> i mod ?len" and hi: "i mod ?len < ?len"
    using pos by simp_all
  obtain c0 c1 c2 where c: "palette self ! nat (i mod ?len) = (c0, c1, c2)"
    by (cases "palette self ! nat (i mod ?len)") auto
  have mem: "(c0, c1, c2) \<in> set (palette self)"
    using c lo hi by (metis nat_less_iff nth_mem)
  have idx: "py_index (palette self) (i mod ?len) = Inr (c0, c1, c2)"
    using lo hi c by (simp add: py_index_def Let_def)
  show ?thesis
    using mem idx pos assms(1) by (auto simp: Colors_call_def)
qed

text \<open>
  Claim C10. For the palette that \<open>Colors()\<close> builds, every integer index \<open>i\<close> and either
  value of \<open>bgr\<close> give a result and no exception: the palette has 20 entries, the call with
  \<open>bgr=False\<close> returns one of them, and the call with \<open>bgr=True\<close> returns the same entry
  with its channels in reverse order.
\<close>

theorem Colors_call_palette_total:
  "\<exists>cs. Colors_init = Inr cs \<and> n cs = 20 \<and> length (palette cs) = 20
     \<and> (\<exists>c0 c1 c2. (c0, c1, c2) \<in> set (palette cs)
           \<and> Colors_call cs i False = Inr (c0, c1, c2)
           \<and> Colors_call cs i True = Inr (c2, c1, c0))"
proof -
  obtain cs where cs: "Colors_init = Inr cs" "n cs = 20" "length (palette cs) = 20"
    using Colors_init_ok by blast
  have "n cs = int (length (palette cs))" and "palette cs \<noteq> []"
    using cs by auto
  from Colors_call_total [OF this] cs show ?thesis by blast
qed

theorem Colors_call_palette_total_witness:
  "\<exists>cs. Colors_init = Inr cs
     \<and> Colors_call cs (-1) False = Inr (255, 55, 199)
     \<and> Colors_call cs (-1) True = Inr (199, 55, 255)
     \<and> Colors_call cs 43 False = Inr (255, 178, 29)"
  using Colors_call_palette_total [of 43]
  by (simp add: Colors_init_def build_palette_hexs Colors_call_def py_index_def)

section \<open>Properties of \<open>link_replacer\<close>: the three outcomes\<close>

text \<open>The examples below use the tree of the specification, rooted at \<open>/docs\<close>.\<close>

definition docs_fixer :: MarkdownLinkFixer where
  "docs_fixer = \<lparr>base_dir = Path True [''docs''], update_links = True, update_text = True\<rparr>"

definition fr_dir :: path where
  "fr_dir = Path True [''docs'', ''fr'']"

definition guides_dir :: path where
  "guides_dir = Path True [''docs'', ''fr'', ''guides'']"

definition files :: "string set \<Rightarrow> filesystem" where
  "files S = \<lparr>existing = S, stat_fails = {}, cwd = Path True []\<rparr>"

lemma match_at_md_link_groups:
  assumes "match_at md_link_regex i s = Some (m, k)"
  obtains t pth rest where "groups m = [t, pth]"
    and "group0 m = ''['' @ t @ '']('' @ pth @ ''.md)''"
    and "s = group0 m @ rest" and "k = length (group0 m)"
    and "t \<noteq> []" and "CHR '']'' \<notin> set t"
    and "pth \<noteq> []" and "CHR '':'' \<notin> set pth" and "CHR '')'' \<notin> set pth"
proof -
  from assms obtain t p rest where
    tp: "s = ''['' @ t @ '']('' @ p @ ''.md)'' @ rest" "t \<noteq> []" "CHR '']'' \<notin> set t"
        "p \<noteq> []" "CHR '':'' \<notin> set p" "CHR '')'' \<notin> set p"
    and m: "m = \<lparr>group0 = ''['' @ t @ '']('' @ p @ ''.md)'', groups = [t, p]\<rparr>"
    and k: "k = length t + length p + 7"
    unfolding match_at_md_link_iff by blast
  show thesis
    by (rule that [of t p rest]) (simp_all add: m k tp)
qed








section \<open>The candidate under the reference tree\<close>

text \<open>
  Claim C6 says that the candidate is the resolved path with the name of the language
  directory replaced by \<open>en\<close> and every other component left as it is. The script replaces
  the text of \<open>str(lang_dir)\<close> wherever it occurs in the text of the path. Two documents
  of \<open>/docs/fr\<close> show the difference. A link \<open>[x](../french/x.md)\<close> resolves to
  \<open>/docs/french/x.md\<close>, which has no component \<open>fr\<close>; its candidate is
  \<open>/docs/enench/x.md\<close>, and when that file exists the link is redirected to it. A link
  \<open>[y](x/docs/fr/y.md)\<close> resolves to \<open>/docs/fr/x/docs/fr/y.md\<close>; its candidate is
  \<open>/docs/en/x/docs/en/y.md\<close>, not \<open>/docs/en/x/docs/fr/y.md\<close>.
\<close>

theorem en_candidate_rewrites_other_components:
  "linked_path_of (files {''/docs/enench/x.md''}) fr_dir ''../french/x''
     = Inr (Path True [''docs'', ''french'', ''x.md''])
   \<and> en_linked_path_of fr_dir (Path True [''docs'', ''french'', ''x.md''])
     = Path True [''docs'', ''enench'', ''x.md'']
   \<and> link_replacer docs_fixer (files {''/docs/enench/x.md''})
         \<lparr>group0 = ''[x](../french/x.md)'', groups = [''x'', ''../french/x'']\<rparr>
         fr_dir fr_dir False
     = Inr (''[x](../enench/x.md)'',
            [redirect_line ''x'' ''../french/x'' fr_dir ''../enench/x.md''])
   \<and> linked_path_of (files {}) fr_dir ''x/docs/fr/y''
     = Inr (Path True [''docs'', ''fr'', ''x'', ''docs'', ''fr'', ''y.md''])
   \<and> en_linked_path_of fr_dir (Path True [''docs'', ''fr'', ''x'', ''docs'', ''fr'', ''y.md''])
     = Path True [''docs'', ''en'', ''x'', ''docs'', ''en'', ''y.md'']"
  by code_simp

section \<open>The directories that \<open>run\<close> processes\<close>

text \<open>
  What the pattern \<^verbatim>\<open>^\w\w$\<close> accepts: two word characters, and also two word
  characters with a newline behind them, because \<open>$\<close> holds before a newline that ends
  the name.
\<close>

lemma lang_dir_regex_iff:
  "re_match lang_dir_regex nm \<noteq> None \<longleftrightarrow>
     (\<exists>a b. is_word a \<and> is_word b \<and> (nm = [a, b] \<or> nm = [a, b, CHR 0x0A]))"
  by (auto simp: re_match_def match_at_def lang_dir_regex_def seq_def
           split: list.splits if_splits)

text \<open>
  Claim C9 says that \<open>run\<close> processes exactly the subdirectories whose name has two
  characters, passes the filter and is not \<open>en\<close>, and skips every longer name. On a
  base directory that holds a subdirectory whose name is \<open>fr\<close> followed by a newline
  (three characters), beside \<open>en\<close>, \<open>fr\<close>, a file \<open>de\<close> and a directory \<open>overrides\<close>, \<open>run\<close>
  processes the three-character name as well as \<open>fr\<close>.
\<close>

theorem run_processes_three_character_name:
  "length [CHR ''f'', CHR ''r'', CHR 0x0A] = 3
   \<and> re_match lang_dir_regex [CHR ''f'', CHR ''r'', CHR 0x0A] \<noteq> None
   \<and> run docs_fixer
        [([CHR ''f'', CHR ''r'', CHR 0x0A], True), (''en'', True), (''fr'', True),
         (''de'', False), (''overrides'', True)]
        (\<lambda>p st. Inr (st @ [p])) []
      = Inr [Path True [''docs'', [CHR ''f'', CHR ''r'', CHR 0x0A]],
             Path True [''docs'', ''fr'']]"
  by code_simp

section \<open>The rewrite pass and the text around the links\<close>

text \<open>
  \<open>splice i s spans\<close> is the text \<open>s\<close>, which starts at position \<open>i\<close> of a document, with
  each span \<open>(start, len, new)\<close> of the list replaced by \<open>new\<close>: the text in front of a span
  is copied, the \<open>len\<close> characters of the span are left out and \<open>new\<close> stands in their
  place. \<open>spans_with h i s\<close> lists the spans of the matches that a scan of \<open>s\<close> finds, each
  with the text \<open>h m\<close> for its match \<open>m\<close>; \<open>new_text repl m\<close> is the text that \<open>repl\<close>
  returns for \<open>m\<close>.
\<close>

fun splice :: "nat \<Rightarrow> string \<Rightarrow> (nat \<times> nat \<times> string) list \<Rightarrow> string" where
  "splice i s [] = s"
| "splice i s ((start, len, new) # spans) =
     take (start - i) s @ new @ splice (start + len) (drop (start - i + len) s) spans"

definition spans_with :: "(rmatch \<Rightarrow> string) \<Rightarrow> nat \<Rightarrow> string \<Rightarrow> (nat \<times> nat \<times> string) list" where
  "spans_with h i s =
     map (\<lambda>(start, m). (start, length (group0 m), h m)) (md_link_regex_finditer i s)"

definition new_text :: "(rmatch \<Rightarrow> py_error + (string \<times> string list)) \<Rightarrow> rmatch \<Rightarrow> string" where
  "new_text repl m = (case repl m of Inl e \<Rightarrow> group0 m | Inr (new, printed) \<Rightarrow> new)"

lemma finditer_lower:
  "(start, m) \<in> set (md_link_regex_finditer i s) \<Longrightarrow> i \<le> start"
proof (induction i s rule: md_link_regex_finditer.induct)
  case (1 i)
  then show ?case by simp
next
  case (2 i c cs)
  show ?case
  proof (cases "match_at md_link_regex i (c # cs)")
    case None
    with 2 show ?thesis by fastforce
  next
    case (Some mk)
    obtain m' k where mk: "mk = (m', k)" by (cases mk) auto
    with 2 Some show ?thesis by fastforce
  qed
qed

lemma splice_Cons:
  assumes "\<forall>(start, len, new) \<in> set spans. Suc i \<le> start"
  shows "splice i (c # cs) spans = c # splice (Suc i) cs spans"
proof (cases spans)
  case Nil
  then show ?thesis by simp
next
  case (Cons sp rest)
  obtain start len new where sp: "sp = (start, len, new)" by (cases sp) auto
  with assms Cons have "Suc i \<le> start" by auto
  then obtain d where d: "start - i = Suc d" "start - Suc i = d"
    by (metis Suc_diff_Suc Suc_le_lessD)
  show ?thesis
    by (simp add: Cons sp d)
qed

lemma spans_with_lower:
  "(start, len, new) \<in> set (spans_with h i s) \<Longrightarrow> i \<le> start"
  by (auto simp: spans_with_def dest: finditer_lower)

lemma spans_with_None:
  assumes "match_at md_link_regex i (c # cs) = None"
  shows "splice i (c # cs) (spans_with h i (c # cs)) = c # splice (Suc i) cs (spans_with h (Suc i) cs)"
proof -
  have eq: "spans_with h i (c # cs) = spans_with h (Suc i) cs"
    using assms by (simp add: spans_with_def)
  have "\<forall>(start, len, new) \<in> set (spans_with h (Suc i) cs). Suc i \<le> start"
    using spans_with_lower by fastforce
  then show ?thesis
    unfolding eq by (rule splice_Cons)
qed

lemma spans_with_Some:
  assumes "match_at md_link_regex i (c # cs) = Some (m, k)"
  shows "splice i (c # cs) (spans_with h i (c # cs)) =
           h m @ splice (i + k) (drop k (c # cs)) (spans_with h (i + k) (drop k (c # cs)))"
proof -
  from assms have k: "k = length (group0 m)"
    by (rule match_at_md_link_groups)
  have eq: "spans_with h i (c # cs) = (i, k, h m) # spans_with h (i + k) (drop k (c # cs))"
    using assms k by (simp add: spans_with_def)
  show ?thesis
    unfolding eq by simp
qed

lemma sub_is_splice:
  assumes "md_link_regex_sub repl i s = Inr (out, printed)"
  shows "out = splice i s (spans_with (new_text repl) i s)"
  using assms
proof (induction repl i s arbitrary: out printed rule: md_link_regex_sub.induct)
  case (1 repl i)
  then show ?case by (simp add: spans_with_def)
next
  case (2 repl i c cs)
  show ?case
  proof (cases "match_at md_link_regex i (c # cs)")
    case None
    with "2.prems" obtain out' where
      sub: "md_link_regex_sub repl (Suc i) cs = Inr (out', printed)" and out: "out = c # out'"
      by (auto split: sum.splits)
    from "2.IH"(1) [OF None sub] have "out' = splice (Suc i) cs (spans_with (new_text repl) (Suc i) cs)" .
    then show ?thesis
      by (simp only: spans_with_None [OF None] out)
  next
    case (Some mk)
    obtain m k where mk: "mk = (m, k)" by (cases mk) auto
    note Some' = Some [unfolded mk]
    from "2.prems" Some' obtain new p1 out' p2 where
      r: "repl m = Inr (new, p1)"
      and sub: "md_link_regex_sub repl (i + k) (drop k (c # cs)) = Inr (out', p2)"
      and out: "out = new @ out'"
      by (auto split: sum.splits)
    have "out' = splice (i + k) (drop k (c # cs)) (spans_with (new_text repl) (i + k) (drop k (c # cs)))"
      using "2.IH"(2) [OF Some' refl r refl sub] .
    moreover have "new_text repl m = new"
      by (simp add: new_text_def r)
    ultimately show ?thesis
      by (simp only: spans_with_Some [OF Some'] out)
  qed
qed

lemma text_is_splice:
  "s = splice i s (spans_with group0 i s)"
proof (induction i s rule: md_link_regex_finditer.induct)
  case (1 i)
  then show ?case by (simp add: spans_with_def)
next
  case (2 i c cs)
  show ?case
  proof (cases "match_at md_link_regex i (c # cs)")
    case None
    from "2.IH"(1) [OF None] show ?thesis
      by (simp only: spans_with_None [OF None])
  next
    case (Some mk)
    obtain m k where mk: "mk = (m, k)" by (cases mk) auto
    note Some' = Some [unfolded mk]
    from Some' obtain rest where s: "c # cs = group0 m @ rest" and k: "k = length (group0 m)"
      by (rule match_at_md_link_groups)
    have d: "drop k (c # cs) = rest"
      unfolding s k by simp
    from "2.IH"(2) [OF Some' refl]
    have "drop k (c # cs) = splice (i + k) (drop k (c # cs)) (spans_with group0 (i + k) (drop k (c # cs)))" .
    then have "group0 m @ splice (i + k) (drop k (c # cs)) (spans_with group0 (i + k) (drop k (c # cs)))
               = c # cs"
      using s d by simp
    then show ?thesis
      by (simp only: spans_with_Some [OF Some'])
  qed
qed


lemma finditer_sound:
  assumes "(start, m) \<in> set (md_link_regex_finditer i s)"
  shows "\<exists>t p. groups m = [t, p] \<and> group0 m = ''['' @ t @ '']('' @ p @ ''.md)''
           \<and> t \<noteq> [] \<and> CHR '']'' \<notin> set t \<and> p \<noteq> [] \<and> CHR '':'' \<notin> set p \<and> CHR '')'' \<notin> set p
           \<and> i \<le> start \<and> take (length (group0 m)) (drop (start - i) s) = group0 m"
  using assms
proof (induction i s rule: md_link_regex_finditer.induct)
  case (1 i)
  then show ?case by simp
next
  case (2 i c cs)
  show ?case
  proof (cases "match_at md_link_regex i (c # cs)")
    case None
    with "2.prems" have mem: "(start, m) \<in> set (md_link_regex_finditer (Suc i) cs)"
      by simp
    from "2.IH"(1) [OF None mem] obtain t p where
      tp: "groups m = [t, p]" "group0 m = ''['' @ t @ '']('' @ p @ ''.md)''"
          "t \<noteq> []" "CHR '']'' \<notin> set t" "p \<noteq> []" "CHR '':'' \<notin> set p" "CHR '')'' \<notin> set p"
      and lo: "Suc i \<le> start"
      and tk: "take (length (group0 m)) (drop (start - Suc i) cs) = group0 m"
      by blast
    from lo have "start - i = Suc (start - Suc i)" by simp
    then have "take (length (group0 m)) (drop (start - i) (c # cs)) = group0 m"
      using tk by simp
    with tp lo show ?thesis by auto
  next
    case (Some mk)
    obtain m' k where mk: "mk = (m', k)" by (cases mk) auto
    note Some' = Some [unfolded mk]
    from "2.prems" Some' have
      "(start, m) = (i, m') \<or> (start, m) \<in> set (md_link_regex_finditer (i + k) (drop k (c # cs)))"
      by simp
    then show ?thesis
    proof
      assume "(start, m) = (i, m')"
      then have e: "start = i" "m = m'" by simp_all
      from Some' obtain t p rest where
        tp: "groups m' = [t, p]" "group0 m' = ''['' @ t @ '']('' @ p @ ''.md)''"
            "c # cs = group0 m' @ rest"
            "t \<noteq> []" "CHR '']'' \<notin> set t" "p \<noteq> []" "CHR '':'' \<notin> set p" "CHR '')'' \<notin> set p"
        by (rule match_at_md_link_groups)
      have "take (length (group0 m')) (drop (i - i) (c # cs)) = group0 m'"
        unfolding tp(3) by simp
      with tp show ?thesis unfolding e by blast
    next
      assume mem: "(start, m) \<in> set (md_link_regex_finditer (i + k) (drop k (c # cs)))"
      from "2.IH"(2) [OF Some' refl mem] obtain t p where
        tp: "groups m = [t, p]" "group0 m = ''['' @ t @ '']('' @ p @ ''.md)''"
            "t \<noteq> []" "CHR '']'' \<notin> set t" "p \<noteq> []" "CHR '':'' \<notin> set p" "CHR '')'' \<notin> set p"
        and lo: "i + k \<le> start"
        and tk: "take (length (group0 m)) (drop (start - (i + k)) (drop k (c # cs))) = group0 m"
        by blast
      from lo have "start - (i + k) + k = start - i" by simp
      then have "take (length (group0 m)) (drop (start - i) (c # cs)) = group0 m"
        using tk by (simp only: drop_drop)
      with tp lo show ?thesis by auto
    qed
  qed
qed

lemma finditer_complete:
  assumes "s = pre @ ''['' @ t @ '']('' @ p @ ''.md)'' @ post"
    and "t \<noteq> []" "CHR '']'' \<notin> set t" "p \<noteq> []" "CHR '':'' \<notin> set p" "CHR '')'' \<notin> set p"
  shows "\<exists>(start, m) \<in> set (md_link_regex_finditer i s).
           start \<le> i + length pre \<and> i + length pre < start + length (group0 m)"
  using assms(1)
proof (induction i s arbitrary: pre rule: md_link_regex_finditer.induct)
  case (1 i)
  then show ?case by simp
next
  case (2 i c cs)
  show ?case
  proof (cases "match_at md_link_regex i (c # cs)")
    case None
    have "pre \<noteq> []"
    proof
      assume "pre = []"
      with "2.prems" have "c # cs = ''['' @ t @ '']('' @ p @ ''.md)'' @ post" by simp
      with assms(2-6) have "match_at md_link_regex i (c # cs) =
          Some (\<lparr>group0 = ''['' @ t @ '']('' @ p @ ''.md)'', groups = [t, p]\<rparr>, length t + length p + 7)"
        unfolding match_at_md_link_iff by blast
      with None show False by simp
    qed
    then obtain pre' where pre: "pre = c # pre'" and cs: "cs = pre' @ ''['' @ t @ '']('' @ p @ ''.md)'' @ post"
      using "2.prems" by (cases pre) auto
    from "2.IH"(1) [OF None cs] obtain start m where
      "(start, m) \<in> set (md_link_regex_finditer (Suc i) cs)"
      "start \<le> Suc i + length pre'" "Suc i + length pre' < start + length (group0 m)"
      by blast
    then show ?thesis
      using None pre by (intro bexI [of _ "(start, m)"]) auto
  next
    case (Some mk)
    obtain m k where mk: "mk = (m, k)" by (cases mk) auto
    note Some' = Some [unfolded mk]
    from Some' have k: "k = length (group0 m)"
      by (rule match_at_md_link_groups)
    show ?thesis
    proof (cases "length pre < k")
      case True
      then show ?thesis
        using Some' k by (intro bexI [of _ "(i, m)"]) auto
    next
      case False
      then have "drop k (c # cs) = drop k pre @ ''['' @ t @ '']('' @ p @ ''.md)'' @ post"
        using "2.prems" by simp
      from "2.IH"(2) [OF Some' refl this] obtain start m' where
        mem: "(start, m') \<in> set (md_link_regex_finditer (i + k) (drop k (c # cs)))"
        and "start \<le> i + k + length (drop k pre)"
        and "i + k + length (drop k pre) < start + length (group0 m')"
        by blast
      with False have "start \<le> i + length pre" "i + length pre < start + length (group0 m')"
        by simp_all
      with mem show ?thesis
        using Some' by (intro bexI [of _ "(start, m')"]) auto
    qed
  qed
qed

text \<open>
  Claim C8 (the contract of the link pattern). At a position of a text the pattern
  matches exactly when the text from there on begins with \<open>[t](p.md)\<close>, where \<open>t\<close> is not
  empty and has no \<open>]\<close>, and \<open>p\<close> is not empty and has neither \<open>:\<close> nor \<open>)\<close>; the match is then
  that link, with the groups \<open>t\<close> and \<open>p\<close>. Every match that a scan of a document reports is
  such a link and stands in the document at the reported position, so that no target with
  a colon (a URL with a scheme) and no target that goes on behind \<open>.md\<close> (an anchor) is
  reported; and every such link in the document lies inside a reported match. The scan is
  a function of the text alone.
\<close>

theorem link_pattern_contract:
  "(match_at md_link_regex i s = Some (m, k) \<longleftrightarrow>
      (\<exists>t p rest. s = ''['' @ t @ '']('' @ p @ ''.md)'' @ rest \<and> t \<noteq> [] \<and> CHR '']'' \<notin> set t
         \<and> p \<noteq> [] \<and> CHR '':'' \<notin> set p \<and> CHR '')'' \<notin> set p
         \<and> m = \<lparr>group0 = ''['' @ t @ '']('' @ p @ ''.md)'', groups = [t, p]\<rparr>
         \<and> k = length t + length p + 7))
   \<and> (\<forall>(start, m') \<in> set (md_link_regex_finditer 0 doc).
         \<exists>t p. groups m' = [t, p] \<and> group0 m' = ''['' @ t @ '']('' @ p @ ''.md)''
           \<and> t \<noteq> [] \<and> CHR '']'' \<notin> set t \<and> p \<noteq> [] \<and> CHR '':'' \<notin> set p \<and> CHR '')'' \<notin> set p
           \<and> take (length (group0 m')) (drop start doc) = group0 m')
   \<and> (\<forall>pre t p post.
         doc = pre @ ''['' @ t @ '']('' @ p @ ''.md)'' @ post \<and> t \<noteq> [] \<and> CHR '']'' \<notin> set t
           \<and> p \<noteq> [] \<and> CHR '':'' \<notin> set p \<and> CHR '')'' \<notin> set p
         \<longrightarrow> (\<exists>(start, m') \<in> set (md_link_regex_finditer 0 doc).
                start \<le> length pre \<and> length pre < start + length (group0 m')))"
proof (intro conjI)
  show "match_at md_link_regex i s = Some (m, k) \<longleftrightarrow>
      (\<exists>t p rest. s = ''['' @ t @ '']('' @ p @ ''.md)'' @ rest \<and> t \<noteq> [] \<and> CHR '']'' \<notin> set t
         \<and> p \<noteq> [] \<and> CHR '':'' \<notin> set p \<and> CHR '')'' \<notin> set p
         \<and> m = \<lparr>group0 = ''['' @ t @ '']('' @ p @ ''.md)'', groups = [t, p]\<rparr>
         \<and> k = length t + length p + 7)"
    by (rule match_at_md_link_iff)
next
  show "\<forall>(start, m') \<in> set (md_link_regex_finditer 0 doc).
         \<exists>t p. groups m' = [t, p] \<and> group0 m' = ''['' @ t @ '']('' @ p @ ''.md)''
           \<and> t \<noteq> [] \<and> CHR '']'' \<notin> set t \<and> p \<noteq> [] \<and> CHR '':'' \<notin> set p \<and> CHR '')'' \<notin> set p
           \<and> take (length (group0 m')) (drop start doc) = group0 m'"
  proof (clarify)
    fix start m'
    assume "(start, m') \<in> set (md_link_regex_finditer 0 doc)"
    from finditer_sound [OF this]
    show "\<exists>t p. groups m' = [t, p] \<and> group0 m' = ''['' @ t @ '']('' @ p @ ''.md)''
           \<and> t \<noteq> [] \<and> CHR '']'' \<notin> set t \<and> p \<noteq> [] \<and> CHR '':'' \<notin> set p \<and> CHR '')'' \<notin> set p
           \<and> take (length (group0 m')) (drop start doc) = group0 m'"
      by simp
  qed
next
  show "\<forall>pre t p post.
         doc = pre @ ''['' @ t @ '']('' @ p @ ''.md)'' @ post \<and> t \<noteq> [] \<and> CHR '']'' \<notin> set t
           \<and> p \<noteq> [] \<and> CHR '':'' \<notin> set p \<and> CHR '')'' \<notin> set p
         \<longrightarrow> (\<exists>(start, m') \<in> set (md_link_regex_finditer 0 doc).
                start \<le> length pre \<and> length pre < start + length (group0 m'))"
  proof (intro allI impI, elim conjE)
    fix pre t p post
    assume "doc = pre @ ''['' @ t @ '']('' @ p @ ''.md)'' @ post"
      "t \<noteq> []" "CHR '']'' \<notin> set t" "p \<noteq> []" "CHR '':'' \<notin> set p" "CHR '')'' \<notin> set p"
    from finditer_complete [OF this, of 0]
    show "\<exists>(start, m') \<in> set (md_link_regex_finditer 0 doc).
            start \<le> length pre \<and> length pre < start + length (group0 m')"
      by simp
  qed
qed

theorem link_pattern_contract_witness:
  "md_link_regex_finditer 0 ''See [a](b.md), [c](http://d.md) and [e](f.md#g).''
     = [(4, \<lparr>group0 = ''[a](b.md)'', groups = [''a'', ''b'']\<rparr>)]
   \<and> match_at md_link_regex 4 ''[a](b.md), [c](http://d.md) and [e](f.md#g).''
     = Some (\<lparr>group0 = ''[a](b.md)'', groups = [''a'', ''b'']\<rparr>, 9)
   \<and> (\<exists>t p. groups \<lparr>group0 = ''[a](b.md)'', groups = [''a'', ''b'']\<rparr> = [t, p]
          \<and> CHR '':'' \<notin> set p
          \<and> take 9 (drop 4 ''See [a](b.md), [c](http://d.md) and [e](f.md#g).'') = ''['' @ t @ '']('' @ p @ ''.md)'')"
proof -
  let ?doc = "''See [a](b.md), [c](http://d.md) and [e](f.md#g).''"
  let ?m = "\<lparr>group0 = ''[a](b.md)'', groups = [''a'', ''b'']\<rparr>"
  have 1: "md_link_regex_finditer 0 ?doc = [(4, ?m)]"
    by code_simp
  have 2: "match_at md_link_regex 4 ''[a](b.md), [c](http://d.md) and [e](f.md#g).'' = Some (?m, 9)"
    by code_simp
  from link_pattern_contract [of 0 ?doc ?m 9 ?doc, THEN conjunct2, THEN conjunct1]
  have "\<exists>t p. groups ?m = [t, p] \<and> group0 ?m = ''['' @ t @ '']('' @ p @ ''.md)''
           \<and> t \<noteq> [] \<and> CHR '']'' \<notin> set t \<and> p \<noteq> [] \<and> CHR '':'' \<notin> set p \<and> CHR '')'' \<notin> set p
           \<and> take (length (group0 ?m)) (drop 4 ?doc) = group0 ?m"
    unfolding 1 by simp
  then have "\<exists>t p. groups ?m = [t, p] \<and> CHR '':'' \<notin> set p
          \<and> take 9 (drop 4 ?doc) = ''['' @ t @ '']('' @ p @ ''.md)''"
    by simp
  with 1 2 show ?thesis by blast
qed

lemma process_markdown_file_links_only:
  assumes "update_links self" and "\<not> update_text self"
  shows "process_markdown_file self fs text_passes md_file_path lang_dir content =
           (case rewrite_links self fs (parent md_file_path) lang_dir content of
              Inl e \<Rightarrow> Inl e
            | Inr (content1, printed) \<Rightarrow>
                Inr (content1, (''Processing file: '' @ str_path md_file_path) # printed))"
  using assms by (simp add: process_markdown_file_def split: sum.splits)

text \<open>
  Claim C7 (the text outside the links, and the spans). When the rewrite pass returns,
  the document and its result are both a splice over the spans of the matches that a scan
  of the document, as it was before the pass, finds: the document with the matched texts
  in the spans, the result with the texts that \<open>link_replacer\<close> returned. The spans do not
  depend on the replacements, and every character outside them is copied.
\<close>

theorem rewrite_links_frame:
  assumes "rewrite_links self fs parent_dir lang_dir content = Inr (out, printed)"
  shows "content = splice 0 content (spans_with group0 0 content)
         \<and> out = splice 0 content
                   (spans_with (new_text (\<lambda>m. link_replacer self fs m parent_dir lang_dir False))
                      0 content)"
  using assms text_is_splice [of content 0] sub_is_splice [of _ 0 content out printed]
  unfolding rewrite_links_def by blast

theorem rewrite_links_frame_witness:
  "rewrite_links docs_fixer (files {''/docs/en/install.md''}) guides_dir fr_dir
     ''See [Setup](../install.md) and [API](../api/missing.md).''
     = Inr (''See [Setup](../../install.md) and [API](../api/missing.md).'',
            [redirect_line ''Setup'' ''../install'' guides_dir ''../../install.md'',
             broken_line ''API'' ''../api/missing'' guides_dir])
   \<and> spans_with group0 0 ''See [Setup](../install.md) and [API](../api/missing.md).''
     = [(4, 22, ''[Setup](../install.md)''), (31, 24, ''[API](../api/missing.md)'')]
   \<and> ''See [Setup](../../install.md) and [API](../api/missing.md).''
     = splice 0 ''See [Setup](../install.md) and [API](../api/missing.md).''
         (spans_with
            (new_text (\<lambda>m. link_replacer docs_fixer (files {''/docs/en/install.md''}) m
                              guides_dir fr_dir False))
            0 ''See [Setup](../install.md) and [API](../api/missing.md).'')"
proof -
  let ?doc = "''See [Setup](../install.md) and [API](../api/missing.md).''"
  let ?fs = "files {''/docs/en/install.md''}"
  have 1: "rewrite_links docs_fixer ?fs guides_dir fr_dir ?doc
     = Inr (''See [Setup](../../install.md) and [API](../api/missing.md).'',
            [redirect_line ''Setup'' ''../install'' guides_dir ''../../install.md'',
             broken_line ''API'' ''../api/missing'' guides_dir])"
    by code_simp
  have 2: "spans_with group0 0 ?doc
     = [(4, 22, ''[Setup](../install.md)''), (31, 24, ''[API](../api/missing.md)'')]"
    by code_simp
  from rewrite_links_frame [OF 1] 1 2 show ?thesis by blast
qed

section \<open>The redirected link\<close>



fun drop_en :: "string list \<Rightarrow> string list" where
  "drop_en (x # e # y # zs) =
     (if e = ''en'' then x # drop_en (y # zs) else x # drop_en (e # y # zs))"
| "drop_en [] = []"
| "drop_en [x] = [x]"
| "drop_en [x, e] = [x, e]"

lemma split_on_nonempty [simp]: "split_on c s \<noteq> []"
  by (induction s) (auto split: list.splits)


















lemma drop_en_Nil [simp]: "drop_en xs = [] \<longleftrightarrow> xs = []"
  by (induction xs rule: drop_en.induct) auto






lemma set_drop_en: "set (drop_en xs) \<subseteq> set xs"
  by (induction xs rule: drop_en.induct) auto




lemma length_drop_en: "length (drop_en xs) \<le> length xs"
  by (induction xs rule: drop_en.induct) auto



















text \<open>
  Claim C2 says that only the first inner component \<open>en\<close> of the built path is removed,
  and later ones are left. For the document \<open>/docs/fr/a.md\<close> with the link
  \<open>[b](x/en/b.md)\<close>, where \<open>/docs/en/x/en/b.md\<close> exists, the built path is
  \<open>../en/x/en/b.md\<close>; the script writes \<open>../x/b.md\<close>, with both components removed, where
  the claim expects \<open>../x/en/b.md\<close>.
\<close>

theorem en_stripping_removes_later_occurrence:
  "str_path (joinpath (parse_path (concat (replicate 1 ''../'')))
               (Path False [''en'', ''x'', ''en'', ''b.md'']))
     = ''../en/x/en/b.md''
   \<and> rel_updated_path docs_fixer fr_dir (Path True [''docs'', ''en'', ''x'', ''en'', ''b.md''])
     = Inr ''../x/b.md''
   \<and> rel_updated_path docs_fixer fr_dir (Path True [''docs'', ''en'', ''x'', ''en'', ''b.md''])
     \<noteq> Inr ''../x/en/b.md''
   \<and> link_replacer docs_fixer (files {''/docs/en/x/en/b.md''})
         \<lparr>group0 = ''[b](x/en/b.md)'', groups = [''b'', ''x/en/b'']\<rparr> fr_dir fr_dir False
     = Inr (''[b](../x/b.md)'', [redirect_line ''b'' ''x/en/b'' fr_dir ''../x/b.md''])"
  by code_simp

section \<open>A second rewrite pass\<close>









































end
